theory Spec2Isabelle
  imports Complex_Main
begin

section \<open>Earth--Mars launch windows: a model of \<^verbatim>\<open>solar_system_orbits.py\<close>\<close>

text \<open>
  The program works on Python floats and numpy doubles. They are modelled as
  \<^typ>\<open>real\<close>: every arithmetic operation is the exact one, without rounding,
  overflow, signed zeros or NaN. Where the floating-point operation leaves the reals
  (a division by zero, a logarithm outside its domain), the model says so with an
  explicit branch instead of using HOL's total functions there.
\<close>

subsection \<open>Configuration\<close>

definition AXIS_LIMIT :: real where
  "AXIS_LIMIT = 40"

text \<open>Gravitational parameter of the Sun in AU^3/day^2.\<close>

definition GM_SUN :: real where
  "GM_SUN = 2959122082855911 / 10 ^ 19"

subsection \<open>numpy helpers\<close>

text \<open>\<^verbatim>\<open>np.hypot(x, y)\<close>.\<close>

definition hypot :: "real \<Rightarrow> real \<Rightarrow> real" where
  "hypot x y = sqrt (x\<^sup>2 + y\<^sup>2)"

text \<open>
  \<^verbatim>\<open>np.arctan2(y, x)\<close>: the angle of the point \<open>(x, y)\<close> in \<open>(-\<pi>, \<pi>]\<close>, and \<open>0\<close> at
  the origin.
\<close>

definition arctan2 :: "real \<Rightarrow> real \<Rightarrow> real" where
  "arctan2 y x =
     (if 0 < x then arctan (y / x)
      else if x < 0 then (if 0 \<le> y then arctan (y / x) + pi else arctan (y / x) - pi)
      else if 0 < y then pi / 2
      else if y < 0 then - (pi / 2)
      else 0)"

subsection \<open>Radial exaggeration\<close>

text \<open>
  \<^verbatim>\<open>
  def radial_exaggerate(x, y, max_radius=AXIS_LIMIT):
      r = np.hypot(x, y)
      if r == 0:
          return 0.0, 0.0
      r_new = np.log1p(r) / np.log1p(max_radius) * max_radius
      theta = np.arctan2(y, x)
      return r_new * np.cos(theta), r_new * np.sin(theta)
  \<close>
  numpy raises nothing here. \<^verbatim>\<open>np.log1p(max_radius)\<close> is NaN below \<open>-1\<close>, minus
  infinity at \<open>-1\<close> and zero at \<open>0\<close>; for \<open>r > 0\<close> the quotient is then NaN, a
  negative zero, or infinity (which times \<open>0\<close> is NaN). The result \<open>None\<close> stands for
  the pair of NaNs.
\<close>

definition radial_exaggerate :: "real \<Rightarrow> real \<Rightarrow> real \<Rightarrow> (real \<times> real) option" where
  "radial_exaggerate x y max_radius =
     (let r = hypot x y in
      if r = 0 then Some (0, 0)
      else if max_radius < - 1 \<or> max_radius = 0 then None
      else
        let r_new = (if max_radius = - 1 then 0
                     else ln (1 + r) / ln (1 + max_radius) * max_radius);
            theta = arctan2 y x
        in Some (r_new * cos theta, r_new * sin theta))"

subsection \<open>Exceptions\<close>

text \<open>
  The program catches nothing, so every exception ends the run. \<open>DataUnavailable\<close> is
  the exception of the ephemeris when it cannot resolve a body at an epoch;
  \<open>ValueError\<close> is raised by \<^verbatim>\<open>datetime(...)\<close> for a year outside 1..9999 and by
  \<^verbatim>\<open>math.sqrt\<close> for a negative argument; \<open>OverflowError\<close> by a date sum beyond
  the year 9999; \<open>AttributeError\<close> by \<^verbatim>\<open>None.strftime\<close>.
\<close>

datatype error = DataUnavailable | ValueError | OverflowError | AttributeError

subsection \<open>Calendar dates (\<^verbatim>\<open>datetime\<close>)\<close>

datatype date = Date (year: int) (month: nat) (day: nat)

definition MINYEAR :: int where
  "MINYEAR = 1"

definition MAXYEAR :: int where
  "MAXYEAR = 9999"

definition is_leap :: "int \<Rightarrow> bool" where
  "is_leap y = (y mod 4 = 0 \<and> (if y mod 100 = 0 then y mod 400 = 0 else True))"

definition days_in_month :: "int \<Rightarrow> nat \<Rightarrow> nat" where
  "days_in_month y m =
     (if m = 2 then (if is_leap y then 29 else 28)
      else if m = 4 \<or> m = 6 \<or> m = 9 \<or> m = 11 then 30
      else 31)"

text \<open>\<^verbatim>\<open>datetime(year, month, day)\<close>, at midnight.\<close>

definition datetime :: "int \<Rightarrow> nat \<Rightarrow> nat \<Rightarrow> error + date" where
  "datetime y m d =
     (if MINYEAR \<le> y \<and> y \<le> MAXYEAR \<and> 1 \<le> m \<and> m \<le> 12 \<and> 1 \<le> d \<and> d \<le> days_in_month y m
      then Inr (Date y m d)
      else Inl ValueError)"

definition next_day :: "date \<Rightarrow> date" where
  "next_day d =
     (if day d < days_in_month (year d) (month d) then Date (year d) (month d) (day d + 1)
      else if month d < 12 then Date (year d) (month d + 1) 1
      else Date (year d + 1) 1 1)"

text \<open>
  \<^verbatim>\<open>d0 + timedelta(days=offset)\<close> for an offset that is not negative: the date
  \<open>offset\<close> days after \<open>d0\<close>, and OverflowError when it lies beyond the last year.
\<close>

definition add_days :: "date \<Rightarrow> nat \<Rightarrow> error + date" where
  "add_days d0 offset =
     (let d = (next_day ^^ offset) d0
      in if year d \<le> MAXYEAR then Inr d else Inl OverflowError)"

subsection \<open>Ephemeris\<close>

text \<open>
  An epoch \<^verbatim>\<open>ts.utc(year, month, day)\<close> is midnight UTC of that calendar day. The
  ephemeris (\<^verbatim>\<open>eph\<close>, loaded from a file the program does not contain) is a
  parameter: the heliocentric \<open>(x, y)\<close> of a named body at an epoch, in AU, or \<open>None\<close> where
  it cannot resolve the body there.
\<close>

datatype epoch = Utc int nat nat

definition ts_utc :: "int \<Rightarrow> nat \<Rightarrow> nat \<Rightarrow> epoch" where
  "ts_utc y m d = Utc y m d"

type_synonym ephemeris = "string \<Rightarrow> epoch \<Rightarrow> (real \<times> real) option"

definition get_planet_xy :: "ephemeris \<Rightarrow> epoch \<Rightarrow> string \<Rightarrow> error + (real \<times> real)" where
  "get_planet_xy eph t name =
     (case eph name t of None \<Rightarrow> Inl DataUnavailable | Some pos \<Rightarrow> Inr pos)"

definition earth_mars_distance :: "ephemeris \<Rightarrow> epoch \<Rightarrow> error + real" where
  "earth_mars_distance eph t =
     (case get_planet_xy eph t ''earth'' of
        Inl e \<Rightarrow> Inl e
      | Inr (x_e, y_e) \<Rightarrow>
          (case get_planet_xy eph t ''mars'' of
             Inl e \<Rightarrow> Inl e
           | Inr (x_m, y_m) \<Rightarrow> Inr (hypot (x_m - x_e) (y_m - y_e))))"

subsection \<open>The yearly scan\<close>

text \<open>
  The pair \<^verbatim>\<open>best_date, best_dist\<close> is one optional pair: \<open>None\<close> is the initial
  \<^verbatim>\<open>(None, np.inf)\<close>, below which every real distance lies.
\<close>

definition closer :: "real \<Rightarrow> (date \<times> real) option \<Rightarrow> bool" where
  "closer dst best = (case best of None \<Rightarrow> True | Some (best_date, best_dist) \<Rightarrow> dst < best_dist)"

text \<open>
  \<^verbatim>\<open>
  for offset in range(0, 366):
      dt = d0 + timedelta(days=offset)
      t = ts.utc(dt.year, dt.month, dt.day)
      dist = earth_mars_distance(t)
      if dist < best_dist:
          best_dist, best_date = dist, dt
  \<close>
\<close>

fun offset_loop ::
  "ephemeris \<Rightarrow> date \<Rightarrow> nat list \<Rightarrow> (date \<times> real) option \<Rightarrow> error + (date \<times> real) option"
where
  "offset_loop eph d0 [] best = Inr best"
| "offset_loop eph d0 (offset # rest) best =
     (case add_days d0 offset of
        Inl e \<Rightarrow> Inl e
      | Inr dt \<Rightarrow>
          (case earth_mars_distance eph (ts_utc (year dt) (month dt) (day dt)) of
             Inl e \<Rightarrow> Inl e
           | Inr dst \<Rightarrow>
               offset_loop eph d0 rest (if closer dst best then Some (dt, dst) else best)))"

definition scan_year :: "ephemeris \<Rightarrow> int \<Rightarrow> error + (date \<times> real) option" where
  "scan_year eph y =
     (case datetime y 1 1 of
        Inl e \<Rightarrow> Inl e
      | Inr d0 \<Rightarrow> offset_loop eph d0 [0..<366] None)"

subsection \<open>Output\<close>

text \<open>
  What a run writes, in order: the progress line of a year (its year, date and
  distance), the distance chart and the transfer-time chart (the file name and, for
  every point, x, y and the label). The label of a distance point is the date that
  \<^verbatim>\<open>strftime('%b %d')\<close> renders. A chart event stands for the plot, the saved
  file and the line printed after it. The rendering library and the file system are
  not modelled.
\<close>

datatype event =
    Progress int date real
  | DistChart string "(int \<times> real \<times> date) list"
  | TimeChart string "(int \<times> real \<times> string) list"

text \<open>
  The lists \<^verbatim>\<open>years\<close>, \<^verbatim>\<open>dates\<close> and \<^verbatim>\<open>dists\<close> grow together, one
  entry each per year: they are one list of triples.
\<close>

type_synonym approach = "int \<times> date \<times> real"

fun year_loop ::
  "ephemeris \<Rightarrow> int list \<Rightarrow> approach list \<Rightarrow> event list \<Rightarrow> event list \<times> (error + approach list)"
where
  "year_loop eph [] recs out = (out, Inr recs)"
| "year_loop eph (y # rest) recs out =
     (case scan_year eph y of
        Inl e \<Rightarrow> (out, Inl e)
      | Inr None \<Rightarrow> (out, Inl AttributeError)
      | Inr (Some (best_date, best_dist)) \<Rightarrow>
          year_loop eph rest (recs @ [(y, best_date, best_dist)])
            (out @ [Progress y best_date best_dist]))"

subsection \<open>Transfer time\<close>

text \<open>
  \<^verbatim>\<open>
  a_trans = (r_e + r_m) / 2.0
  T_days = math.pi * math.sqrt(a_trans**3 / GM_SUN)
  \<close>
  \<^verbatim>\<open>math.sqrt\<close> raises ValueError on a negative argument.
\<close>

definition transfer_time :: "real \<Rightarrow> real \<Rightarrow> error + real" where
  "transfer_time r_e r_m =
     (let a_trans = (r_e + r_m) / 2;
          q = a_trans ^ 3 / GM_SUN
      in if q < 0 then Inl ValueError else Inr (pi * sqrt q))"

fun transfer_loop :: "ephemeris \<Rightarrow> date list \<Rightarrow> real list \<Rightarrow> error + real list" where
  "transfer_loop eph [] transfer_days = Inr transfer_days"
| "transfer_loop eph (dt # rest) transfer_days =
     (let t = ts_utc (year dt) (month dt) (day dt) in
      case get_planet_xy eph t ''earth'' of
        Inl e \<Rightarrow> Inl e
      | Inr (x_e, y_e) \<Rightarrow>
          (case get_planet_xy eph t ''mars'' of
             Inl e \<Rightarrow> Inl e
           | Inr (x_m, y_m) \<Rightarrow>
               (case transfer_time (hypot x_e y_e) (hypot x_m y_m) of
                  Inl e \<Rightarrow> Inl e
                | Inr T_days \<Rightarrow> transfer_loop eph rest (transfer_days @ [T_days]))))"

subsection \<open>Point labels of the transfer-time chart\<close>

text \<open>
  Python's \<^verbatim>\<open>x // y\<close> and \<^verbatim>\<open>x % y\<close> on floats with a positive \<open>y\<close>, \<^verbatim>\<open>int(x)\<close>
  (truncation towards zero) and \<^verbatim>\<open>str\<close> of an integer.
\<close>

definition floordiv :: "real \<Rightarrow> real \<Rightarrow> real" where
  "floordiv x y = of_int \<lfloor>x / y\<rfloor>"

definition pymod :: "real \<Rightarrow> real \<Rightarrow> real" where
  "pymod x y = x - y * of_int \<lfloor>x / y\<rfloor>"

definition py_int :: "real \<Rightarrow> int" where
  "py_int x = (if 0 \<le> x then \<lfloor>x\<rfloor> else \<lceil>x\<rceil>)"

fun str_nat :: "nat \<Rightarrow> string" where
  "str_nat n =
     (if n < 10 then [''0123456789'' ! n]
      else str_nat (n div 10) @ [''0123456789'' ! (n mod 10)])"

declare str_nat.simps [simp del]

definition str_int :: "int \<Rightarrow> string" where
  "str_int i = (if i < 0 then ''-'' @ str_nat (nat (- i)) else str_nat (nat i))"

text \<open>
  \<^verbatim>\<open>
  months = int(td // 30)
  days = int(td % 30)
  f"{months}m{days}d"
  \<close>
\<close>

definition label :: "real \<Rightarrow> string" where
  "label td =
     (let months = py_int (floordiv td 30);
          days = py_int (pymod td 30)
      in str_int months @ ''m'' @ str_int days @ ''d'')"

subsection \<open>The batch run\<close>

definition compute_launch_windows ::
  "ephemeris \<Rightarrow> int \<Rightarrow> int \<Rightarrow> string \<Rightarrow> string \<Rightarrow> event list \<times> (error + unit)"
where
  "compute_launch_windows eph start_year end_year dist_chart time_chart =
     (case year_loop eph [start_year..end_year] [] [] of
        (out, Inl e) \<Rightarrow> (out, Inl e)
      | (out, Inr recs) \<Rightarrow>
          (let out1 = out @ [DistChart dist_chart (map (\<lambda>(y, dt, dst). (y, dst, dt)) recs)] in
           case transfer_loop eph (map (\<lambda>(y, dt, dst). dt) recs) [] of
             Inl e \<Rightarrow> (out1, Inl e)
           | Inr transfer_days \<Rightarrow>
               (out1 @ [TimeChart time_chart
                          (map (\<lambda>(y, td). (y, td, label td))
                             (zip (map (\<lambda>(y, dt, dst). y) recs) transfer_days))],
                Inr ())))"

subsection \<open>Notions used in the statements and proofs\<close>

text \<open>
  A date is valid when its month and day exist; \<open>yday\<close> counts the days of a date's year up
  to it; \<open>day_of y k\<close> is the date \<open>k\<close> days after January 1 of \<open>y\<close>, \<open>epoch_of\<close> the epoch
  the scan asks the ephemeris for on a date, and \<open>sample\<close> one pass through the body of the
  daily loop.
\<close>

definition valid :: "date \<Rightarrow> bool" where
  "valid d = (1 \<le> month d \<and> month d \<le> 12 \<and> 1 \<le> day d \<and> day d \<le> days_in_month (year d) (month d))"

definition days_before_month :: "int \<Rightarrow> nat \<Rightarrow> nat" where
  "days_before_month y m = (\<Sum>i = 1..<m. days_in_month y i)"

definition yday :: "date \<Rightarrow> nat" where
  "yday d = days_before_month (year d) (month d) + day d"

definition days_in_year :: "int \<Rightarrow> nat" where
  "days_in_year y = (if is_leap y then 366 else 365)"

definition sample :: "ephemeris \<Rightarrow> date \<Rightarrow> nat \<Rightarrow> error + (date \<times> real)" where
  "sample eph d0 offset =
     (case add_days d0 offset of
        Inl e \<Rightarrow> Inl e
      | Inr dt \<Rightarrow>
          (case earth_mars_distance eph (ts_utc (year dt) (month dt) (day dt)) of
             Inl e \<Rightarrow> Inl e
           | Inr dst \<Rightarrow> Inr (dt, dst)))"

definition keep_best :: "(date \<times> real) option \<Rightarrow> date \<times> real \<Rightarrow> (date \<times> real) option" where
  "keep_best best s = (if closer (snd s) best then Some s else best)"

definition day_of :: "int \<Rightarrow> nat \<Rightarrow> date" where
  "day_of y k = (next_day ^^ k) (Date y 1 1)"

definition epoch_of :: "date \<Rightarrow> epoch" where
  "epoch_of dt = ts_utc (year dt) (month dt) (day dt)"

subsection \<open>Ephemerides for the examples\<close>

text \<open>
  Three synthetic ephemerides with Earth fixed at \<open>(1, 0)\<close> and Mars on the x axis: at
  distance 1 on the 15th of a month and 2 otherwise; approaching day after day; and one
  whose coverage ends with the year 2027. \<open>date_code\<close> orders dates like the calendar.
\<close>

definition eph_twin :: ephemeris where
  "eph_twin name t =
     (case t of Utc y m d \<Rightarrow>
        if name = ''earth'' then Some (1, 0)
        else Some (if d = 15 then 2 else 3, 0))"

definition eph_approaching :: ephemeris where
  "eph_approaching name t =
     (case t of Utc y m d \<Rightarrow>
        if name = ''earth'' then Some (1, 0)
        else Some (1 + 30000000 / real_of_int (y * 10000 + int m * 100 + int d), 0))"

definition eph_until_2027 :: ephemeris where
  "eph_until_2027 name t =
     (case t of Utc y m d \<Rightarrow>
        if 2027 < y then None
        else if name = ''earth'' then Some (1, 0)
        else Some (5 / 2, 0))"

definition date_code :: "date \<Rightarrow> int" where
  "date_code d = year d * 10000 + int (month d) * 100 + int (day d)"

section \<open>Properties\<close>

subsection \<open>Radial exaggeration\<close>

lemma hypot_zero_iff: "hypot x y = 0 \<longleftrightarrow> x = 0 \<and> y = 0"
  by (simp add: hypot_def)

text \<open>
  C6: \<open>radial_exaggerate\<close> maps the origin to exactly \<open>(0, 0)\<close>, whatever
  \<open>max_radius\<close> is: the branch \<open>r = 0\<close> returns before the quotient of logarithms and
  the angle are computed.
\<close>

theorem radial_exaggerate_origin:
  "radial_exaggerate 0 0 max_radius = Some (0, 0)"
  by (simp add: radial_exaggerate_def hypot_def)

subsection \<open>The calendar and the yearly scan\<close>

lemma days_before_month_Suc: "days_before_month y (Suc m) = (if 1 \<le> m then days_before_month y m + days_in_month y m else 0)"
  by (simp add: days_before_month_def)

lemma month_cases: "1 \<le> (m::nat) \<Longrightarrow> m \<le> 12 \<Longrightarrow> m = 1 \<or> m = 2 \<or> m = 3 \<or> m = 4 \<or> m = 5 \<or> m = 6 \<or> m = 7 \<or> m = 8 \<or> m = 9 \<or> m = 10 \<or> m = 11 \<or> m = 12"
  by arith

lemma dbm_table:
  "days_before_month y (Suc 0) = 0"
  "days_before_month y 2 = 31"
  "days_before_month y 3 = 31 + days_in_month y 2"
  "days_before_month y 4 = 62 + days_in_month y 2"
  "days_before_month y 5 = 92 + days_in_month y 2"
  "days_before_month y 6 = 123 + days_in_month y 2"
  "days_before_month y 7 = 153 + days_in_month y 2"
  "days_before_month y 8 = 184 + days_in_month y 2"
  "days_before_month y 9 = 215 + days_in_month y 2"
  "days_before_month y 10 = 245 + days_in_month y 2"
  "days_before_month y 11 = 276 + days_in_month y 2"
  "days_before_month y 12 = 306 + days_in_month y 2"
  by (simp_all add: days_before_month_def days_in_month_def sum.atLeastLessThan_Suc numeral_eq_Suc del: One_nat_def)

lemma next_day_same_year:
  assumes "valid d" "day d < days_in_month (year d) (month d) \<or> month d < 12"
  shows "valid (next_day d) \<and> year (next_day d) = year d \<and> yday (next_day d) = yday d + 1"
proof (cases "day d < days_in_month (year d) (month d)")
  case True
  with assms show ?thesis by (simp add: valid_def next_day_def yday_def)
next
  case False
  with assms have m: "month d < 12" and dd: "day d = days_in_month (year d) (month d)"
    by (auto simp: valid_def)
  have "1 \<le> days_in_month (year d) (month d + 1)"
    by (simp add: days_in_month_def)
  moreover have "days_before_month (year d) (month d + 1) = days_before_month (year d) (month d) + days_in_month (year d) (month d)"
    using assms(1) by (simp add: days_before_month_Suc valid_def)
  ultimately show ?thesis
    using False m dd assms(1) by (simp add: valid_def next_day_def yday_def)
qed

lemma yday_le: 
  assumes "valid d"
  shows "yday d \<le> days_in_year (year d)"
    and "yday d = days_in_year (year d) \<Longrightarrow> month d = 12 \<and> day d = 31"
  using assms month_cases [of "month d"]
  by (auto simp: valid_def yday_def days_in_year_def dbm_table days_in_month_def split: if_splits)

lemma yday_dec31: "month d = 12 \<Longrightarrow> day d = 31 \<Longrightarrow> yday d = days_in_year (year d)"
  by (simp add: yday_def days_in_year_def dbm_table days_in_month_def)

lemma sample_day_in_year:
  "k < days_in_year y \<Longrightarrow>
     valid ((next_day ^^ k) (Date y 1 1)) \<and> year ((next_day ^^ k) (Date y 1 1)) = y \<and>
     yday ((next_day ^^ k) (Date y 1 1)) = k + 1"
proof (induction k)
  case 0
  show ?case by (simp add: valid_def yday_def dbm_table days_in_month_def)
next
  case (Suc k)
  let ?d = "(next_day ^^ k) (Date y 1 1)"
  from Suc have ih: "valid ?d" "year ?d = y" "yday ?d = k + 1" by simp_all
  have "yday ?d < days_in_year (year ?d)" using ih Suc.prems by simp
  have lt: "yday ?d < days_in_year (year ?d)" by fact
  have "day ?d < days_in_month (year ?d) (month ?d) \<or> month ?d < 12"
  proof (rule ccontr)
    assume "\<not> ?thesis"
    with ih(1) have "month ?d = 12" "day ?d = days_in_month (year ?d) (month ?d)"
      by (auto simp: valid_def)
    then have "month ?d = 12" "day ?d = 31" by (simp_all add: days_in_month_def)
    from yday_dec31 [OF this] lt show False by simp
  qed
  from next_day_same_year [OF ih(1) this] ih show ?case by simp
qed

lemma sample_day_new_year:
  "(next_day ^^ days_in_year y) (Date y 1 1) = Date (y + 1) 1 1"
proof -
  obtain k where k: "days_in_year y = Suc k" by (cases "days_in_year y") (auto simp: days_in_year_def split: if_splits)
  let ?d = "(next_day ^^ k) (Date y 1 1)"
  have ih: "valid ?d" "year ?d = y" "yday ?d = days_in_year y" 
    using sample_day_in_year [of k y] k by simp_all
  from yday_le(2) [OF ih(1)] ih have "month ?d = 12" "day ?d = 31" by simp_all
  then have "next_day ?d = Date (y + 1) 1 1" using ih(2) by (simp add: next_day_def days_in_month_def)
  then show ?thesis using k by simp
qed

lemma sample_day_year:
  assumes "k \<le> 365"
  shows "year ((next_day ^^ k) (Date y 1 1)) = (if k = 365 \<and> \<not> is_leap y then y + 1 else y)"
proof (cases "k < days_in_year y")
  case True
  then show ?thesis using sample_day_in_year [of k y] by (auto simp: days_in_year_def split: if_splits)
next
  case False
  with assms have "k = days_in_year y" "\<not> is_leap y" "k = 365" by (auto simp: days_in_year_def split: if_splits)
  then show ?thesis using sample_day_new_year [of y] by simp
qed

lemma offset_loop_Cons:
  "offset_loop eph d0 (k # ks) best =
     (case sample eph d0 k of Inl e \<Rightarrow> Inl e | Inr s \<Rightarrow> offset_loop eph d0 ks (keep_best best s))"
  by (simp add: sample_def keep_best_def split: sum.splits)

lemma offset_loop_ok:
  "(\<forall>k\<in>set ks. sample eph d0 k = Inr (f k)) \<Longrightarrow>
     offset_loop eph d0 ks best = Inr (foldl keep_best best (map f ks))"
proof (induction ks arbitrary: best)
  case Nil
  show ?case by simp
next
  case (Cons k ks)
  then show ?case by (simp add: offset_loop_Cons del: offset_loop.simps(2))
qed

lemma offset_loop_fail:
  assumes "k \<in> set ks" "sample eph d0 k = Inl DataUnavailable"
    and "\<forall>j\<in>set ks. \<forall>e. sample eph d0 j = Inl e \<longrightarrow> e = DataUnavailable"
  shows "offset_loop eph d0 ks best = Inl DataUnavailable"
  using assms
proof (induction ks arbitrary: best)
  case Nil
  then show ?case by simp
next
  case (Cons j ks)
  show ?case
  proof (cases "sample eph d0 j")
    case (Inl e)
    with Cons.prems(3) have "e = DataUnavailable" by simp
    with Inl show ?thesis by (simp add: offset_loop_Cons del: offset_loop.simps(2))
  next
    case (Inr s)
    with Cons.prems(2) have "k \<noteq> j" by auto
    with Cons.prems(1) have "k \<in> set ks" by simp
    from Cons.IH [OF this Cons.prems(2)] Cons.prems(3) Inr show ?thesis
      by (simp add: offset_loop_Cons del: offset_loop.simps(2))
  qed
qed

lemma first_min_fold:
  "0 < n \<Longrightarrow>
     \<exists>k<n. foldl keep_best None (map f [0..<n]) = Some (f k) \<and>
       (\<forall>j<n. snd (f k) \<le> snd (f j)) \<and> (\<forall>j<k. snd (f k) < snd (f j))"
proof (induction n)
  case 0
  then show ?case by simp
next
  case (Suc n)
  show ?case
  proof (cases "n = 0")
    case True
    then show ?thesis by (simp add: keep_best_def closer_def)
  next
    case False
    with Suc.IH obtain k where k: "k < n" "foldl keep_best None (map f [0..<n]) = Some (f k)"
      "\<forall>j<n. snd (f k) \<le> snd (f j)" "\<forall>j<k. snd (f k) < snd (f j)" by auto
    show ?thesis
    proof (cases "snd (f n) < snd (f k)")
      case True
      have "foldl keep_best None (map f [0..<Suc n]) = Some (f n)"
        using k(2) True by (cases "f k") (simp add: keep_best_def closer_def)
      moreover have "\<forall>j<Suc n. snd (f n) \<le> snd (f j)"
        using k(3) True by (auto simp: less_Suc_eq)
      moreover have "\<forall>j<n. snd (f n) < snd (f j)"
        using k(3) True by (meson less_le_trans)
      ultimately show ?thesis by blast
    next
      case False
      have "foldl keep_best None (map f [0..<Suc n]) = Some (f k)"
        using k(2) False by (cases "f k") (simp add: keep_best_def closer_def)
      moreover have "\<forall>j<Suc n. snd (f k) \<le> snd (f j)"
        using k(3) False by (auto simp: less_Suc_eq)
      ultimately show ?thesis using k(1,4) by (meson less_Suc_eq)
    qed
  qed
qed

lemma day_of_year:
  "k < 366 \<Longrightarrow> year (day_of y k) = (if k = 365 \<and> \<not> is_leap y then y + 1 else y)"
  using sample_day_year [of k y] by (simp add: day_of_def)

lemma add_days_ok:
  assumes "y < MAXYEAR" "k < 366"
  shows "add_days (Date y 1 1) k = Inr (day_of y k)"
  using assms day_of_year [of k y] by (simp add: add_days_def day_of_def Let_def)

lemma sample_valid_year:
  assumes "y < MAXYEAR" "k < 366"
  shows "sample eph (Date y 1 1) k =
     (case earth_mars_distance eph (epoch_of (day_of y k)) of
        Inl e \<Rightarrow> Inl e | Inr dst \<Rightarrow> Inr (day_of y k, dst))"
  unfolding sample_def add_days_ok [OF assms] epoch_of_def by simp

lemma earth_mars_distance_error:
  "earth_mars_distance eph t = Inl e \<Longrightarrow> e = DataUnavailable"
  by (auto simp: earth_mars_distance_def get_planet_xy_def split: option.splits sum.splits prod.splits)

lemma earth_mars_distance_None:
  "eph ''earth'' t = None \<or> eph ''mars'' t = None \<Longrightarrow>
     earth_mars_distance eph t = Inl DataUnavailable"
  by (auto simp: earth_mars_distance_def get_planet_xy_def split: option.splits sum.splits prod.splits)

lemma earth_mars_distance_Some:
  "eph ''earth'' t = Some (x_e, y_e) \<Longrightarrow> eph ''mars'' t = Some (x_m, y_m) \<Longrightarrow>
     earth_mars_distance eph t = Inr (hypot (x_m - x_e) (y_m - y_e))"
  by (simp add: earth_mars_distance_def get_planet_xy_def)

lemma scan_year_valid:
  "MINYEAR \<le> y \<Longrightarrow> y < MAXYEAR \<Longrightarrow>
     scan_year eph y = offset_loop eph (Date y 1 1) [0..<366] None"
  by (simp add: scan_year_def datetime_def days_in_month_def MAXYEAR_def del: One_nat_def)

lemma scan_year_first_min:
  assumes "MINYEAR \<le> y" "y < MAXYEAR"
    and "\<forall>k<366. earth_mars_distance eph (epoch_of (day_of y k)) = Inr (D k)"
  shows "\<exists>k<366. scan_year eph y = Inr (Some (day_of y k, D k)) \<and>
           (\<forall>j<366. D k \<le> D j) \<and> (\<forall>j<k. D k < D j)"
proof -
  let ?f = "\<lambda>k. (day_of y k, D k)"
  have "\<forall>k\<in>set [0..<366]. sample eph (Date y 1 1) k = Inr (?f k)"
    using assms(2,3) by (simp add: sample_valid_year del: One_nat_def)
  then have "offset_loop eph (Date y 1 1) [0..<366] None = Inr (foldl keep_best None (map ?f [0..<366]))"
    by (rule offset_loop_ok)
  with first_min_fold [of 366 ?f] assms(1,2) show ?thesis
    by (simp add: scan_year_valid del: One_nat_def)
qed

lemma scan_year_unavailable:
  assumes "MINYEAR \<le> y" "y < MAXYEAR" "k < 366"
    and "earth_mars_distance eph (epoch_of (day_of y k)) = Inl DataUnavailable"
  shows "scan_year eph y = Inl DataUnavailable"
proof -
  have a: "sample eph (Date y 1 1) k = Inl DataUnavailable"
    using assms by (simp add: sample_valid_year del: One_nat_def)
  have b: "\<forall>j\<in>set [0..<366]. \<forall>e. sample eph (Date y 1 1) j = Inl e \<longrightarrow> e = DataUnavailable"
    using assms(2) by (auto simp add: sample_valid_year simp del: One_nat_def split: sum.splits dest: earth_mars_distance_error)
  have c: "k \<in> set [0..<366]" using assms(3) by simp
  have "offset_loop eph (Date y 1 1) [0..<366] None = Inl DataUnavailable"
    by (rule offset_loop_fail [OF c a b])
  then show ?thesis using assms(1,2) by (simp add: scan_year_valid del: One_nat_def)
qed

lemma scan_year_dichotomy:
  assumes "MINYEAR \<le> y" "y < MAXYEAR"
  shows "scan_year eph y = Inl DataUnavailable \<or> (\<exists>b. scan_year eph y = Inr (Some b))"
proof (cases "\<exists>k<366. \<exists>e. earth_mars_distance eph (epoch_of (day_of y k)) = Inl e")
  case True
  then obtain k e where "k < 366" "earth_mars_distance eph (epoch_of (day_of y k)) = Inl e" by blast
  moreover from this have "e = DataUnavailable" by (auto dest: earth_mars_distance_error)
  ultimately show ?thesis using scan_year_unavailable [OF assms] by blast
next
  case False
  then have "\<forall>k<366. earth_mars_distance eph (epoch_of (day_of y k)) =
      Inr (projr (earth_mars_distance eph (epoch_of (day_of y k))))"
    by (metis sum.collapse(2) sum.exhaust_sel)
  from scan_year_first_min [OF assms this] show ?thesis by blast
qed

lemma hypot_x0: "hypot x 0 = \<bar>x\<bar>"
  by (simp add: hypot_def)

lemma day_of_january: "k < 31 \<Longrightarrow> day_of y k = Date y 1 (k + 1)"
proof (induction k)
  case 0
  show ?case by (simp add: day_of_def)
next
  case (Suc k)
  then show ?case by (simp add: day_of_def next_day_def days_in_month_def)
qed

text \<open>
  C2: for a year that \<^verbatim>\<open>datetime\<close> can hold together with its 365th offset, and an
  ephemeris that resolves the 366 daily samples (offsets 0 to 365 from January 1, at
  midnight UTC) to the distances \<open>D 0, \<dots>, D 365\<close>, the scan of the year returns the date
  and distance of an offset \<open>k\<close> whose distance is the least of all samples, and strictly
  below that of every earlier offset: the earliest date attaining the minimum.
\<close>

theorem scan_year_minimum_earliest:
  assumes "MINYEAR \<le> y" "y < MAXYEAR"
    and "\<forall>k<366. earth_mars_distance eph (epoch_of (day_of y k)) = Inr (D k)"
  shows "\<exists>k<366. scan_year eph y = Inr (Some (day_of y k, D k)) \<and>
           (\<forall>j<366. D k \<le> D j) \<and> (\<forall>j<k. D k < D j)"
  using assms by (rule scan_year_first_min)

text \<open>
  An ephemeris where Mars is at distance 1 on the 15th of every month and at distance 2
  on every other day: twelve equal minima in 2026, and the scan returns January 15.
\<close>

theorem scan_year_minimum_earliest_witness:
  "scan_year eph_twin 2026 = Inr (Some (Date 2026 1 15, 1))"
proof -
  let ?D = "\<lambda>k. if day (day_of 2026 k) = 15 then 1 else (2::real)"
  have h: "\<forall>k<366. earth_mars_distance eph_twin (epoch_of (day_of 2026 k)) = Inr (?D k)"
    by (simp add: earth_mars_distance_def get_planet_xy_def eph_twin_def epoch_of_def ts_utc_def hypot_x0)
  have y: "MINYEAR \<le> 2026" "2026 < MAXYEAR" by (simp_all add: MINYEAR_def MAXYEAR_def)
  from scan_year_minimum_earliest [OF y h]
  obtain k where k: "k < 366" "scan_year eph_twin 2026 = Inr (Some (day_of 2026 k, ?D k))"
    "\<forall>j<366. ?D k \<le> ?D j" "\<forall>j<k. ?D k < ?D j" by blast
  have d14: "?D 14 = 1" by (simp add: day_of_january)
  from k(3) have "?D k \<le> ?D 14" by simp
  with d14 have dk: "?D k = 1" by (simp split: if_splits)
  have "\<not> 14 < k"
  proof
    assume "14 < k"
    with k(4) have "?D k < ?D 14" by blast
    with d14 dk show False by simp
  qed
  moreover have "\<not> k < 14" using dk by (auto simp: day_of_january)
  ultimately have "k = 14" by simp
  with k(2) show ?thesis by (simp add: day_of_january)
qed

lemma day_of_next_january:
  "\<not> is_leap y \<Longrightarrow> day_of y 365 = Date (y + 1) 1 1"
  using sample_day_new_year [of y] by (simp add: day_of_def days_in_year_def)

lemma day_of_same_year:
  assumes "k < 365"
  shows "year (day_of y k) = y" "month (day_of y k) \<le> 12" "day (day_of y k) \<le> 31"
proof -
  have "k < days_in_year y" using assms by (simp add: days_in_year_def)
  from sample_day_in_year [OF this]
  have v: "valid (day_of y k)" and yy: "year (day_of y k) = y" by (simp_all add: day_of_def)
  show "year (day_of y k) = y" by fact
  show "month (day_of y k) \<le> 12" using v by (simp add: valid_def)
  have "days_in_month (year (day_of y k)) (month (day_of y k)) \<le> 31"
    by (simp add: days_in_month_def)
  with v show "day (day_of y k) \<le> 31" by (simp add: valid_def)
qed

lemma scan_year_approaching:
  "scan_year eph_approaching 2026 = Inr (Some (Date 2027 1 1, 30000000 / 20270101))"
proof -
  let ?D = "\<lambda>k. \<bar>30000000 / real_of_int (date_code (day_of 2026 k))\<bar>"
  have h: "\<forall>k<366. earth_mars_distance eph_approaching (epoch_of (day_of 2026 k)) = Inr (?D k)"
    by (simp add: earth_mars_distance_def get_planet_xy_def eph_approaching_def epoch_of_def
        ts_utc_def hypot_x0 date_code_def)
  have y: "MINYEAR \<le> 2026" "2026 < MAXYEAR" by (simp_all add: MINYEAR_def MAXYEAR_def)
  from scan_year_first_min [OF y h]
  obtain k where k: "k < 366" "scan_year eph_approaching 2026 = Inr (Some (day_of 2026 k, ?D k))"
    "\<forall>j<366. ?D k \<le> ?D j" by blast
  have last: "day_of 2026 365 = Date 2027 1 1"
    using day_of_next_january [of 2026] by (simp add: is_leap_def)
  then have d365: "?D 365 = 30000000 / 20270101" by (simp add: date_code_def)
  have "\<not> k < 365"
  proof
    assume lt: "k < 365"
    let ?c = "date_code (day_of 2026 k)"
    from day_of_same_year [OF lt, of 2026]
    have c: "20260000 \<le> ?c" "?c \<le> 20261231" by (simp_all add: date_code_def)
    then have "30000000 / 20270101 < 30000000 / real_of_int ?c"
      by (simp add: field_simps)
    moreover have "?D k = 30000000 / real_of_int ?c" using c by simp
    moreover have "?D k \<le> ?D 365" using k(3) by simp
    ultimately show False using d365 by simp
  qed
  with k(1) have "k = 365" by simp
  with k(2) last d365 show ?thesis by simp
qed

text \<open>
  C1: one record per year, each with a distance that is not negative and a date between
  January 1 and December 31 of its year. The scan takes 366 samples in every year; in a
  year without February 29 the last one is January 1 of the next year. With an ephemeris
  where Mars comes closer every day, the record of 2026 carries the date 2027-01-01.
\<close>

theorem year_loop_2026_reports_2027:
  "year_loop eph_approaching [2026..2026] [] [] =
     ([Progress 2026 (Date 2027 1 1) (30000000 / 20270101)],
      Inr [(2026, Date 2027 1 1, 30000000 / 20270101)])"
  by (simp add: scan_year_approaching)

lemma year_loop_fail:
  assumes "sorted_wrt (<) ys" "y \<in> set ys" "scan_year eph y = Inl DataUnavailable"
    and "\<forall>y'\<in>set ys. scan_year eph y' = Inl DataUnavailable \<or> (\<exists>b. scan_year eph y' = Inr (Some b))"
  shows "\<exists>out'. year_loop eph ys recs out = (out @ out', Inl DataUnavailable) \<and>
           (\<forall>ev\<in>set out'. \<exists>y' dt dst. ev = Progress y' dt dst \<and> y' < y)"
  using assms
proof (induction ys arbitrary: recs out)
  case Nil
  then show ?case by simp
next
  case (Cons y0 ys)
  from Cons.prems(4) consider "scan_year eph y0 = Inl DataUnavailable"
    | bd bdst where "scan_year eph y0 = Inr (Some (bd, bdst))" by fastforce
  then show ?case
  proof cases
    case 1
    then show ?thesis by simp
  next
    case 2
    with Cons.prems(2,3) have in_rest: "y \<in> set ys" by auto
    with Cons.prems(1) have lt: "y0 < y" by simp
    from Cons.prems(1) have s: "sorted_wrt (<) ys" by simp
    from Cons.prems(4) have all: "\<forall>y'\<in>set ys. scan_year eph y' = Inl DataUnavailable \<or> (\<exists>b. scan_year eph y' = Inr (Some b))"
      by simp
    from Cons.IH [OF s in_rest Cons.prems(3) all, of "recs @ [(y0, bd, bdst)]" "out @ [Progress y0 bd bdst]"]
    obtain out' where o: "year_loop eph ys (recs @ [(y0, bd, bdst)]) (out @ [Progress y0 bd bdst]) =
        ((out @ [Progress y0 bd bdst]) @ out', Inl DataUnavailable)"
      "\<forall>ev\<in>set out'. \<exists>y' dt dst. ev = Progress y' dt dst \<and> y' < y" by blast
    have "year_loop eph (y0 # ys) recs out = (out @ (Progress y0 bd bdst # out'), Inl DataUnavailable)"
      using 2 o(1) by simp
    moreover have "\<forall>ev\<in>set (Progress y0 bd bdst # out'). \<exists>y' dt dst. ev = Progress y' dt dst \<and> y' < y"
      using o(2) lt by simp
    ultimately show ?thesis by blast
  qed
qed

text \<open>
  C5: when the ephemeris cannot resolve Earth or Mars at one of the sampled epochs of a
  year \<open>y\<close> of the requested range (years that \<^verbatim>\<open>datetime\<close> can hold), the run ends
  with DataUnavailable. What it has written by then are progress lines of years before
  \<open>y\<close> only: no line for \<open>y\<close> or a later year, and no chart.
\<close>

theorem unresolved_epoch_aborts:
  assumes "MINYEAR \<le> start_year" "end_year < MAXYEAR"
    and "start_year \<le> y" "y \<le> end_year" "k < 366"
    and "eph ''earth'' (epoch_of (day_of y k)) = None \<or> eph ''mars'' (epoch_of (day_of y k)) = None"
  shows "\<exists>out. compute_launch_windows eph start_year end_year dist_chart time_chart =
             (out, Inl DataUnavailable) \<and>
           (\<forall>ev\<in>set out. \<exists>y' dt dst. ev = Progress y' dt dst \<and> y' < y)"
proof -
  have yv: "MINYEAR \<le> y" "y < MAXYEAR" using assms by simp_all
  have f: "scan_year eph y = Inl DataUnavailable"
    using scan_year_unavailable [OF yv assms(5)]
      earth_mars_distance_None [of eph "epoch_of (day_of y k)"] assms(6) by simp
  have all: "\<forall>y'\<in>set [start_year..end_year].
      scan_year eph y' = Inl DataUnavailable \<or> (\<exists>b. scan_year eph y' = Inr (Some b))"
  proof
    fix y' assume "y' \<in> set [start_year..end_year]"
    with assms(1,2) have "MINYEAR \<le> y'" "y' < MAXYEAR" by simp_all
    then show "scan_year eph y' = Inl DataUnavailable \<or> (\<exists>b. scan_year eph y' = Inr (Some b))"
      by (rule scan_year_dichotomy)
  qed
  have "sorted_wrt (<) [start_year..end_year]"
    by (simp add: strict_sorted_iff)
  moreover have "y \<in> set [start_year..end_year]" using assms(3,4) by simp
  ultimately obtain out' where o: "year_loop eph [start_year..end_year] [] [] = ([] @ out', Inl DataUnavailable)"
    "\<forall>ev\<in>set out'. \<exists>y' dt dst. ev = Progress y' dt dst \<and> y' < y"
    using year_loop_fail [OF _ _ f all, of "[]" "[]"] by blast
  then show ?thesis by (simp add: compute_launch_windows_def)
qed

text \<open>An ephemeris that ends with 2027, asked for 2026 to 2030.\<close>

theorem unresolved_epoch_aborts_witness:
  "snd (compute_launch_windows eph_until_2027 2026 2030 ''launch_windows.png'' ''travel_times.png'')
     = Inl DataUnavailable"
proof -
  have "MINYEAR \<le> 2026" "2030 < MAXYEAR" by (simp_all add: MINYEAR_def MAXYEAR_def)
  moreover have "eph_until_2027 ''earth'' (epoch_of (day_of 2028 0)) = None \<or>
      eph_until_2027 ''mars'' (epoch_of (day_of 2028 0)) = None"
    by (simp add: eph_until_2027_def epoch_of_def day_of_def ts_utc_def)
  ultimately show ?thesis
    using unresolved_epoch_aborts [of 2026 2030 2028 0 eph_until_2027 "''launch_windows.png''" "''travel_times.png''"]
    by auto
qed

subsection \<open>Labels\<close>

lemma py_int_of_int: "py_int (of_int n) = n"
  by (simp add: py_int_def)

lemma floor_div_30: "\<lfloor>(td::real) / 30\<rfloor> = \<lfloor>td\<rfloor> div 30"
proof -
  have "\<lfloor>td / real_of_int 30\<rfloor> = \<lfloor>td\<rfloor> div 30"
    by (rule floor_divide_real_eq_div) simp
  then show ?thesis by simp
qed

lemma months_eq: "py_int (floordiv td 30) = \<lfloor>td / 30\<rfloor>"
  by (simp add: floordiv_def py_int_of_int)

lemma pymod_range: "0 \<le> pymod td 30" "pymod td 30 < 30"
proof -
  have "of_int \<lfloor>td / 30\<rfloor> \<le> td / 30" by (rule of_int_floor_le)
  then show "0 \<le> pymod td 30" by (simp add: pymod_def field_simps)
  have "td / 30 < of_int \<lfloor>td / 30\<rfloor> + 1" by linarith
  then show "pymod td 30 < 30" by (simp add: pymod_def field_simps)
qed

lemma days_eq: "py_int (pymod td 30) = \<lfloor>td\<rfloor> mod 30"
proof -
  have "py_int (pymod td 30) = \<lfloor>pymod td 30\<rfloor>"
    using pymod_range(1) [of td] by (simp add: py_int_def)
  also have "\<dots> = \<lfloor>td - of_int (30 * \<lfloor>td / 30\<rfloor>)\<rfloor>" by (simp add: pymod_def)
  also have "\<dots> = \<lfloor>td\<rfloor> - 30 * \<lfloor>td / 30\<rfloor>"
    by (rule floor_diff_of_int)
  also have "\<dots> = \<lfloor>td\<rfloor> mod 30"
    by (simp add: floor_div_30 minus_mult_div_eq_mod)
  finally show ?thesis .
qed

text \<open>
  C8: the label of a transfer time \<open>td\<close> is \<^verbatim>\<open>"{months}m{days}d"\<close> with months the floor
  of \<open>td / 30\<close> and days the integer part of \<open>td\<close> modulo 30 (the integer part of
  \<^verbatim>\<open>td % 30\<close>); 75 days are labelled \<^verbatim>\<open>2m15d\<close>.
\<close>

theorem label_months_days:
  "label td = str_int \<lfloor>td / 30\<rfloor> @ ''m'' @ str_int (\<lfloor>td\<rfloor> mod 30) @ ''d'' \<and>
   label 75 = ''2m15d''"
proof
  show g: "label td = str_int \<lfloor>td / 30\<rfloor> @ ''m'' @ str_int (\<lfloor>td\<rfloor> mod 30) @ ''d''" for td
    by (simp add: label_def months_eq days_eq)
  show "label 75 = ''2m15d''"
    by (simp add: g str_int_def str_nat.simps)
qed

subsection \<open>Malformed configuration\<close>

text \<open>
  C4, as stated, fails: nothing rejects an empty year range or a radius that is not
  positive. The run for the years 2026 to 2025 ends normally with two empty charts, and
  the transfer time of the radii \<open>0, 0\<close> and of \<open>-1, 3\<close> is a number.
\<close>

theorem invalid_input_not_rejected:
  "compute_launch_windows eph_twin 2026 2025 ''launch_windows.png'' ''travel_times.png'' =
     ([DistChart ''launch_windows.png'' [], TimeChart ''travel_times.png'' []], Inr ()) \<and>
   transfer_time 0 0 = Inr 0 \<and>
   transfer_time (- 1) 3 = Inr (pi * sqrt (1 / GM_SUN))"
  by (simp add: compute_launch_windows_def transfer_time_def GM_SUN_def)

text \<open>The only failure of the formula: \<^verbatim>\<open>math.sqrt\<close> on a negative sum of the radii.\<close>

lemma GM_SUN_pos: "0 < GM_SUN"
  by (simp add: GM_SUN_def)

lemma transfer_time_cases:
  "transfer_time r_e r_m =
     (if r_e + r_m < 0 then Inl ValueError
      else Inr (pi * sqrt (((r_e + r_m) / 2) ^ 3 / GM_SUN)))"
proof -
  have "((r_e + r_m) / 2) ^ 3 / GM_SUN < 0 \<longleftrightarrow> r_e + r_m < 0"
    using GM_SUN_pos by (simp add: divide_less_0_iff power_less_zero_eq)
  then show ?thesis by (simp add: transfer_time_def Let_def)
qed

text \<open>
  C4, amended: no configuration is rejected as invalid input. On an empty year range
  (\<open>end_year < start_year\<close>) the run completes without error, writes no progress line and
  two charts without points. The transfer time of any two radii whose sum is not negative
  (zero radii included) is \<open>\<pi> \<surd>(a\<^sup>3 / \<mu>)\<close>; a negative sum makes \<^verbatim>\<open>math.sqrt\<close> raise
  ValueError.
\<close>

theorem no_input_validation:
  "(end_year < start_year \<longrightarrow>
      compute_launch_windows eph start_year end_year dist_chart time_chart =
        ([DistChart dist_chart [], TimeChart time_chart []], Inr ())) \<and>
   transfer_time r_e r_m =
     (if r_e + r_m < 0 then Inl ValueError
      else Inr (pi * sqrt (((r_e + r_m) / 2) ^ 3 / GM_SUN)))"
  by (simp add: compute_launch_windows_def transfer_time_cases)

theorem no_input_validation_witness:
  "(2025::int) < 2026 \<and>
   compute_launch_windows eph_until_2027 2026 2025 ''launch_windows.png'' ''travel_times.png'' =
     ([DistChart ''launch_windows.png'' [], TimeChart ''travel_times.png'' []], Inr ()) \<and>
   transfer_time 0 1 = Inr (pi * sqrt ((1 / 2) ^ 3 / GM_SUN))"
  using no_input_validation [of 2025 2026 eph_until_2027 "''launch_windows.png''" "''travel_times.png''" 0 1]
  by simp

subsection \<open>Physical quantities\<close>

lemma hypot_nonneg: "0 \<le> hypot x y"
  by (simp add: hypot_def)

lemma transfer_loop_resolved:
  assumes "\<forall>dt\<in>set dts. eph ''earth'' (epoch_of dt) = Some (pe dt) \<and> eph ''mars'' (epoch_of dt) = Some (pm dt)"
  shows "transfer_loop eph dts acc =
     Inr (acc @ map (\<lambda>dt. pi * sqrt (((hypot (fst (pe dt)) (snd (pe dt)) +
                                        hypot (fst (pm dt)) (snd (pm dt))) / 2) ^ 3 / GM_SUN)) dts)"
  using assms
proof (induction dts arbitrary: acc)
  case Nil
  show ?case by simp
next
  case (Cons dt dts)
  have e: "eph ''earth'' (epoch_of dt) = Some (pe dt)" and m: "eph ''mars'' (epoch_of dt) = Some (pm dt)"
    using Cons.prems by simp_all
  have nn: "\<not> hypot (fst (pe dt)) (snd (pe dt)) + hypot (fst (pm dt)) (snd (pm dt)) < 0"
    using hypot_nonneg [of "fst (pe dt)" "snd (pe dt)"] hypot_nonneg [of "fst (pm dt)" "snd (pm dt)"]
    by simp
  have ih: "\<forall>dt\<in>set dts. eph ''earth'' (epoch_of dt) = Some (pe dt) \<and> eph ''mars'' (epoch_of dt) = Some (pm dt)"
    using Cons.prems by simp
  show ?case
    using e m nn Cons.IH [OF ih]
    by (cases "pe dt"; cases "pm dt")
       (simp add: get_planet_xy_def epoch_of_def transfer_time_cases)
qed

text \<open>
  C9: the Earth--Mars distance at an epoch is the Euclidean distance of the two positions
  the ephemeris returns there, and the transfer times of a list of dates are
  \<open>\<pi> \<surd>(a\<^sup>3 / \<mu>)\<close> with \<open>a\<close> the mean of the two heliocentric radii of the positions the
  ephemeris returns at each date. Neither goes through \<open>radial_exaggerate\<close>, which only the
  animation calls.
\<close>

theorem physical_quantities_use_raw_positions:
  assumes "eph ''earth'' t = Some (x_e, y_e)" "eph ''mars'' t = Some (x_m, y_m)"
    and "\<forall>dt\<in>set dts. eph ''earth'' (epoch_of dt) = Some (pe dt) \<and> eph ''mars'' (epoch_of dt) = Some (pm dt)"
  shows "earth_mars_distance eph t = Inr (sqrt ((x_m - x_e)\<^sup>2 + (y_m - y_e)\<^sup>2)) \<and>
         transfer_loop eph dts [] =
           Inr (map (\<lambda>dt. pi * sqrt (((sqrt ((fst (pe dt))\<^sup>2 + (snd (pe dt))\<^sup>2) +
                                       sqrt ((fst (pm dt))\<^sup>2 + (snd (pm dt))\<^sup>2)) / 2) ^ 3 / GM_SUN)) dts)"
  using earth_mars_distance_Some [of eph t x_e y_e x_m y_m] assms(1,2)
    transfer_loop_resolved [OF assms(3), of "[]"]
  by (simp add: hypot_def)

theorem physical_quantities_use_raw_positions_witness:
  "earth_mars_distance eph_twin (Utc 2026 3 15) = Inr 1 \<and>
   transfer_loop eph_twin [Date 2026 3 15] [] = Inr [pi * sqrt ((3 / 2) ^ 3 / GM_SUN)]"
proof -
  have "eph_twin ''earth'' (Utc 2026 3 15) = Some (1, 0)" "eph_twin ''mars'' (Utc 2026 3 15) = Some (2, 0)"
    by (simp_all add: eph_twin_def)
  moreover have "\<forall>dt\<in>set [Date 2026 3 15]. eph_twin ''earth'' (epoch_of dt) = Some (1, 0) \<and>
      eph_twin ''mars'' (epoch_of dt) = Some (2, 0)"
    by (simp add: eph_twin_def epoch_of_def ts_utc_def)
  ultimately show ?thesis
    using physical_quantities_use_raw_positions [of eph_twin "Utc 2026 3 15" 1 0 2 0 "[Date 2026 3 15]"
        "\<lambda>_. (1, 0)" "\<lambda>_. (2, 0)"]
    by simp
qed

subsection \<open>Transfer time\<close>

text \<open>Bounds of \<open>\<pi>\<close> from Machin's formula and two polynomial bounds of the arc tangent.\<close>

lemma arctan_lower:
  assumes "0 \<le> x"
  shows "x - x ^ 3 / 3 \<le> arctan x"
proof -
  let ?f = "\<lambda>t::real. arctan t - (t - t ^ 3 / 3)"
  have "?f 0 \<le> ?f x"
  proof (rule DERIV_nonneg_imp_nondecreasing [OF assms])
    fix t :: real
    have "DERIV ?f t :> inverse (1 + t\<^sup>2) - (1 - t\<^sup>2)"
      by (auto intro!: derivative_eq_intros simp: power2_eq_square)
    moreover have "0 \<le> inverse (1 + t\<^sup>2) - (1 - t\<^sup>2)"
    proof -
      have p: "0 < 1 + t\<^sup>2" by (simp add: add_pos_nonneg)
      have "inverse (1 + t\<^sup>2) - (1 - t\<^sup>2) = t ^ 4 / (1 + t\<^sup>2)"
        using p by (simp add: field_simps power2_eq_square power4_eq_xxxx)
      also have "0 \<le> \<dots>" using p by simp
      finally show ?thesis .
    qed
    ultimately show "\<exists>y. DERIV ?f t :> y \<and> 0 \<le> y" by blast
  qed
  then show ?thesis by simp
qed

lemma arctan_upper:
  assumes "0 \<le> x"
  shows "arctan x \<le> x - x ^ 3 / 3 + x ^ 5 / 5"
proof -
  let ?f = "\<lambda>t::real. (t - t ^ 3 / 3 + t ^ 5 / 5) - arctan t"
  have "?f 0 \<le> ?f x"
  proof (rule DERIV_nonneg_imp_nondecreasing [OF assms])
    fix t :: real
    have "DERIV ?f t :> (1 - t\<^sup>2 + t ^ 4) - inverse (1 + t\<^sup>2)"
      by (auto intro!: derivative_eq_intros simp: power2_eq_square power4_eq_xxxx)
    moreover have "0 \<le> (1 - t\<^sup>2 + t ^ 4) - inverse (1 + t\<^sup>2)"
    proof -
      have p: "0 < 1 + t\<^sup>2" by (simp add: add_pos_nonneg)
      have "(1 - t\<^sup>2 + t ^ 4) - inverse (1 + t\<^sup>2) = t ^ 6 / (1 + t\<^sup>2)"
        using p by (simp add: field_simps power2_eq_square power4_eq_xxxx eval_nat_numeral)
      also have "0 \<le> \<dots>" using p by simp
      finally show ?thesis .
    qed
    ultimately show "\<exists>y. DERIV ?f t :> y \<and> 0 \<le> y" by blast
  qed
  then show ?thesis by simp
qed

lemma pi_bounds: "3.14 < pi" "pi < 3.142"
proof -
  have a: "1 / 5 - (1 / 5) ^ 3 / 3 \<le> arctan (1 / 5)" by (rule arctan_lower) simp
  have b: "arctan (1 / 5) \<le> 1 / 5 - (1 / 5) ^ 3 / 3 + (1 / 5) ^ 5 / 5" by (rule arctan_upper) simp
  have c: "1 / 239 - (1 / 239) ^ 3 / 3 \<le> arctan (1 / 239)" by (rule arctan_lower) simp
  have d: "arctan (1 / 239) \<le> 1 / 239 - (1 / 239) ^ 3 / 3 + (1 / 239) ^ 5 / 5" by (rule arctan_upper) simp
  have m: "pi = 16 * arctan (1 / 5) - 4 * arctan (1 / 239)" using machin by simp
  show "3.14 < pi" using a d unfolding m by (simp add: field_simps)
  show "pi < 3.142" using b c unfolding m by (simp add: field_simps)
qed

lemma transfer_time_positive:
  assumes "0 < r_e" "0 < r_m"
  shows "transfer_time r_e r_m = Inr (pi * sqrt (((r_e + r_m) / 2) ^ 3 / GM_SUN))"
  using assms by (simp add: transfer_time_cases)

lemma transfer_time_earth_mars:
  "\<exists>T. transfer_time 1 (1524 / 1000) = Inr T \<and> \<bar>T - 259\<bar> \<le> 1"
proof -
  let ?q = "((1 + 1524 / 1000) / 2) ^ 3 / GM_SUN :: real"
  have lo: "82.41 < sqrt ?q"
    by (rule real_less_rsqrt) (simp add: GM_SUN_def field_simps)
  have hi: "sqrt ?q < 82.42"
    by (rule real_less_lsqrt) (simp_all add: GM_SUN_def field_simps)
  have "3.14 * 82.41 < pi * sqrt ?q"
    by (rule mult_strict_mono) (use pi_bounds(1) lo in simp_all)
  moreover have "pi * sqrt ?q < 3.142 * 82.42"
    by (rule mult_strict_mono) (use pi_bounds(2) hi GM_SUN_pos in simp_all)
  ultimately have "\<bar>pi * sqrt ?q - 259\<bar> \<le> 1" by simp
  moreover have "transfer_time 1 (1524 / 1000) = Inr (pi * sqrt ?q)"
    by (rule transfer_time_positive) simp_all
  ultimately show ?thesis by blast
qed

text \<open>
  C3: for positive radii the transfer time is \<open>\<pi> \<surd>(a\<^sup>3 / \<mu>)\<close> days with
  \<open>a = (r_earth + r_mars) / 2\<close> and \<open>\<mu> = 0.0002959122082855911\<close>; for the radii 1.0 and
  1.524 it is within one day of 259.
\<close>

theorem transfer_time_formula:
  "(0 < r_e \<and> 0 < r_m \<longrightarrow>
      transfer_time r_e r_m =
        Inr (pi * sqrt (((r_e + r_m) / 2) ^ 3 / (2959122082855911 / 10 ^ 19)))) \<and>
   (\<exists>T. transfer_time 1 (1524 / 1000) = Inr T \<and> \<bar>T - 259\<bar> \<le> 1)"
  using transfer_time_positive [of r_e r_m] transfer_time_earth_mars
  by (simp add: GM_SUN_def)

theorem transfer_time_formula_witness:
  "(0::real) < 1 \<and> (0::real) < 1524 / 1000 \<and>
   transfer_time 1 (1524 / 1000) =
     Inr (pi * sqrt (((1 + 1524 / 1000) / 2) ^ 3 / (2959122082855911 / 10 ^ 19)))"
  using transfer_time_formula [of 1 "1524 / 1000"] by simp

subsection \<open>Radial exaggeration: angle and radius\<close>

lemma hypot_pos_iff: "0 < hypot x y \<longleftrightarrow> x \<noteq> 0 \<or> y \<noteq> 0"
  using hypot_nonneg [of x y] hypot_zero_iff [of x y] by linarith

lemma hypot_scale: "0 \<le> k \<Longrightarrow> hypot (k * x) (k * y) = k * hypot x y"
proof -
  assume k: "0 \<le> k"
  have "(k * x)\<^sup>2 + (k * y)\<^sup>2 = k\<^sup>2 * (x\<^sup>2 + y\<^sup>2)" by (simp add: power_mult_distrib algebra_simps)
  then show ?thesis using k by (simp add: hypot_def real_sqrt_mult)
qed

lemma arctan2_scale: "0 < k \<Longrightarrow> arctan2 (k * y) (k * x) = arctan2 y x"
  by (simp add: arctan2_def zero_less_mult_iff mult_less_0_iff zero_le_mult_iff)

lemma sqrt_one_plus_ratio:
  assumes "x \<noteq> 0"
  shows "sqrt (1 + (y / x)\<^sup>2) = hypot x y / \<bar>x\<bar>"
proof -
  have "1 + (y / x)\<^sup>2 = (x\<^sup>2 + y\<^sup>2) / x\<^sup>2"
    using assms by (simp add: field_simps power_divide)
  then show ?thesis by (simp add: hypot_def real_sqrt_divide)
qed

lemma cos_sin_arctan_ratio:
  assumes "x \<noteq> 0"
  shows "cos (arctan (y / x)) = \<bar>x\<bar> / hypot x y"
    and "sin (arctan (y / x)) = (y / x) * \<bar>x\<bar> / hypot x y"
  using assms by (simp_all add: cos_arctan sin_arctan sqrt_one_plus_ratio)

lemma cos_arctan2:
  assumes "hypot x y \<noteq> 0"
  shows "cos (arctan2 y x) = x / hypot x y"
proof -
  consider "0 < x" | "x < 0" | "x = 0" by linarith
  then show ?thesis
  proof cases
    case 1
    then show ?thesis by (simp add: arctan2_def cos_sin_arctan_ratio)
  next
    case 2
    then show ?thesis by (simp add: arctan2_def cos_sin_arctan_ratio)
  next
    case 3
    with assms have "y \<noteq> 0" by (simp add: hypot_zero_iff)
    with 3 show ?thesis by (auto simp: arctan2_def)
  qed
qed

lemma sin_arctan2:
  assumes "hypot x y \<noteq> 0"
  shows "sin (arctan2 y x) = y / hypot x y"
proof -
  consider "0 < x" | "x < 0" | "x = 0" by linarith
  then show ?thesis
  proof cases
    case 1
    then show ?thesis by (simp add: arctan2_def cos_sin_arctan_ratio)
  next
    case 2
    then show ?thesis by (simp add: arctan2_def cos_sin_arctan_ratio)
  next
    case 3
    with assms have "y \<noteq> 0" by (simp add: hypot_zero_iff)
    with 3 show ?thesis by (auto simp: arctan2_def hypot_def real_sqrt_abs)
  qed
qed

text \<open>
  Away from the origin and for a positive \<open>max_radius\<close> the result is the input scaled by
  the positive factor \<open>r_new / r\<close>.
\<close>

lemma radial_exaggerate_scaled:
  assumes "0 < hypot x y" "0 < max_radius"
  shows "radial_exaggerate x y max_radius =
     Some (ln (1 + hypot x y) / ln (1 + max_radius) * max_radius / hypot x y * x,
           ln (1 + hypot x y) / ln (1 + max_radius) * max_radius / hypot x y * y)"
  using assms by (simp add: radial_exaggerate_def Let_def cos_arctan2 sin_arctan2)

lemma log_radius_pos:
  fixes r m :: real
  assumes "0 < r" "0 < m"
  shows "0 < ln (1 + r) / ln (1 + m) * m"
  using assms by (simp add: ln_gt_zero)

lemma radial_exaggerate_polar:
  assumes "0 < hypot x y" "0 < max_radius"
  shows "\<exists>x' y'. radial_exaggerate x y max_radius = Some (x', y') \<and>
           arctan2 y' x' = arctan2 y x \<and>
           hypot x' y' = ln (1 + hypot x y) / ln (1 + max_radius) * max_radius"
proof -
  let ?r = "hypot x y"
  let ?k = "ln (1 + ?r) / ln (1 + max_radius) * max_radius / ?r"
  have k: "0 < ?k" using log_radius_pos [OF assms] assms(1) by (rule divide_pos_pos)
  have "radial_exaggerate x y max_radius = Some (?k * x, ?k * y)"
    by (rule radial_exaggerate_scaled [OF assms])
  moreover have "arctan2 (?k * y) (?k * x) = arctan2 y x"
    by (rule arctan2_scale [OF k])
  moreover have "hypot (?k * x) (?k * y) = ln (1 + ?r) / ln (1 + max_radius) * max_radius"
    using hypot_scale [of ?k x y] k assms(1) by simp
  ultimately show ?thesis by blast
qed

lemma log_radius_le:
  fixes r m :: real
  assumes "0 < r" "r \<le> m"
  shows "ln (1 + r) / ln (1 + m) * m \<le> m"
proof -
  have "ln (1 + r) \<le> ln (1 + m)" using assms by simp
  moreover have "0 < ln (1 + m)" using assms by (simp add: ln_gt_zero)
  ultimately have "ln (1 + r) / ln (1 + m) \<le> 1" by simp
  then have "ln (1 + r) / ln (1 + m) * m \<le> 1 * m"
    using assms by (intro mult_right_mono) simp_all
  then show ?thesis by simp
qed

lemma log_radius_beyond:
  fixes r m :: real
  assumes "0 < m" "m < r"
  shows "m < ln (1 + r) / ln (1 + m) * m" and "ln (1 + r) / ln (1 + m) * m < r"
proof -
  have lm: "0 < ln (1 + m)" using assms by (simp add: ln_gt_zero)
  have "ln (1 + m) < ln (1 + r)" using assms by simp
  with lm have "1 < ln (1 + r) / ln (1 + m)" by simp
  then have "1 * m < ln (1 + r) / ln (1 + m) * m"
    using assms(1) by (intro mult_strict_right_mono)
  then show "m < ln (1 + r) / ln (1 + m) * m" by simp
  let ?z = "(r - m) / (1 + m)"
  have z: "0 < ?z" using assms by simp
  have "1 + r = (1 + m) * (1 + ?z)" using assms by (simp add: field_simps)
  moreover have "1 + m \<noteq> 0" using assms by simp
  moreover have "0 < 1 + ?z" using z by linarith
  then have "1 + ?z \<noteq> 0" by (rule less_imp_neq [THEN not_sym])
  ultimately have A: "ln (1 + r) = ln (1 + m) + ln (1 + ?z)"
    by (simp only: ln_mult if_True simp_thms)
  have B: "ln (1 + ?z) < ?z" using z by (rule ln_add_one_self_less_self)
  have "ln (1 / (1 + m)) \<le> 1 / (1 + m) - 1"
    using assms by (intro ln_le_minus_one) simp
  moreover have "ln (1 / (1 + m)) = - ln (1 + m)" using assms by (simp add: ln_div)
  moreover have "1 / (1 + m) - 1 = - (m / (1 + m))" using assms by (simp add: field_simps)
  ultimately have C: "m / (1 + m) \<le> ln (1 + m)" by simp
  have "m * ln (1 + r) = m * ln (1 + m) + m * ln (1 + ?z)" by (simp add: A algebra_simps)
  also have "\<dots> < m * ln (1 + m) + m * ?z"
    using mult_strict_left_mono [OF B assms(1)] by (simp only: add_strict_left_mono)
  also have "m * ?z = (r - m) * (m / (1 + m))" by simp
  also have "m * ln (1 + m) + (r - m) * (m / (1 + m)) \<le> m * ln (1 + m) + (r - m) * ln (1 + m)"
  proof -
    have "0 \<le> r - m" using assms by simp
    from mult_left_mono [OF C this] show ?thesis by (simp only: add_left_mono)
  qed
  also have "\<dots> = r * ln (1 + m)" by (simp add: algebra_simps)
  finally have "m * ln (1 + r) < r * ln (1 + m)" .
  then show "ln (1 + r) / ln (1 + m) * m < r"
    using lm by (simp add: field_simps)
qed

text \<open>
  C7: for an input with \<open>0 < r \<le> max_radius\<close>, where \<open>r = hypot x y\<close>, the result has the
  polar angle of the input (\<open>arctan2\<close> of the output equals \<open>arctan2 y x\<close>) and the radius
  \<open>ln (1 + r) / ln (1 + max_radius) * max_radius\<close>, which is at most \<open>max_radius\<close>.
\<close>

theorem radial_exaggerate_keeps_angle:
  assumes "0 < hypot x y" "hypot x y \<le> max_radius"
  shows "\<exists>x' y'. radial_exaggerate x y max_radius = Some (x', y') \<and>
           arctan2 y' x' = arctan2 y x \<and>
           hypot x' y' = ln (1 + hypot x y) / ln (1 + max_radius) * max_radius \<and>
           hypot x' y' \<le> max_radius"
proof -
  have m: "0 < max_radius" using assms by simp
  from radial_exaggerate_polar [OF assms(1) m] log_radius_le [OF assms]
  show ?thesis by auto
qed

text \<open>
  C10: for a positive plot limit \<open>max_radius\<close> and an input whose radius \<open>r\<close> is greater than
  it, the radius of the result is greater than \<open>max_radius\<close> and less than \<open>r\<close>: a point
  beyond the limit stays beyond it, nothing clamps it.
\<close>

theorem radial_exaggerate_beyond_limit:
  assumes "0 < max_radius" "max_radius < hypot x y"
  shows "\<exists>x' y'. radial_exaggerate x y max_radius = Some (x', y') \<and>
           max_radius < hypot x' y' \<and> hypot x' y' < hypot x y"
proof -
  have r: "0 < hypot x y" using assms by simp
  from radial_exaggerate_polar [OF r assms(1)] log_radius_beyond [OF assms]
  show ?thesis by auto
qed

lemma hypot_3_4: "hypot 3 4 = 5"
proof -
  have "(3::real)\<^sup>2 + 4\<^sup>2 = 5\<^sup>2" by simp
  then have "hypot 3 4 = sqrt (5\<^sup>2)" unfolding hypot_def by (rule arg_cong)
  then show ?thesis by simp
qed

theorem radial_exaggerate_keeps_angle_witness:
  "0 < hypot 3 4 \<and> hypot 3 4 \<le> AXIS_LIMIT \<and>
   (\<exists>x' y'. radial_exaggerate 3 4 AXIS_LIMIT = Some (x', y') \<and>
      arctan2 y' x' = arctan2 4 3 \<and> hypot x' y' = ln 6 / ln 41 * 40 \<and> hypot x' y' \<le> 40)"
  using radial_exaggerate_keeps_angle [of 3 4 AXIS_LIMIT]
  by (simp add: hypot_3_4 AXIS_LIMIT_def)

theorem radial_exaggerate_beyond_limit_witness:
  "0 < AXIS_LIMIT \<and> AXIS_LIMIT < hypot 30 40 \<and>
   (\<exists>x' y'. radial_exaggerate 30 40 AXIS_LIMIT = Some (x', y') \<and>
      40 < hypot x' y' \<and> hypot x' y' < 50)"
proof -
  have "hypot (10 * 3) (10 * 4) = 10 * hypot 3 4" by (rule hypot_scale) simp
  then have h: "hypot 30 40 = 50" by (simp add: hypot_3_4)
  show ?thesis
    using radial_exaggerate_beyond_limit [of AXIS_LIMIT 30 40]
    by (simp add: h AXIS_LIMIT_def)
qed

subsection \<open>What the yearly loop guarantees\<close>

text \<open>
  For years that \<^verbatim>\<open>datetime\<close> can hold and an ephemeris that resolves every sample, the
  loop over the years ends normally with one progress line and one record per year, in
  order; every distance is at least \<open>0\<close>, and every date lies in the year of its record or,
  in a year without February 29, is January 1 of the next year.
\<close>

lemma earth_mars_distance_nonneg:
  "earth_mars_distance eph t = Inr d \<Longrightarrow> 0 \<le> d"
  by (auto simp: earth_mars_distance_def hypot_nonneg split: sum.splits prod.splits)

lemma day_of_in_or_after_year:
  assumes "k < 366"
  shows "year (day_of y k) = y \<or> \<not> is_leap y \<and> day_of y k = Date (y + 1) 1 1"
proof (cases "k = 365 \<and> \<not> is_leap y")
  case True
  then show ?thesis using day_of_next_january [of y] by simp
next
  case False
  then show ?thesis using day_of_year [OF assms, of y] by auto
qed

lemma scan_year_resolved:
  assumes "MINYEAR \<le> y" "y < MAXYEAR"
    and "\<forall>k<366. \<exists>d. earth_mars_distance eph (epoch_of (day_of y k)) = Inr d"
  shows "\<exists>dt d. scan_year eph y = Inr (Some (dt, d)) \<and> 0 \<le> d \<and>
           (year dt = y \<or> \<not> is_leap y \<and> dt = Date (y + 1) 1 1)"
proof -
  let ?D = "\<lambda>k. projr (earth_mars_distance eph (epoch_of (day_of y k)))"
  have h: "\<forall>k<366. earth_mars_distance eph (epoch_of (day_of y k)) = Inr (?D k)"
  proof (intro allI impI)
    fix k :: nat
    assume "k < 366"
    with assms(3) obtain d where "earth_mars_distance eph (epoch_of (day_of y k)) = Inr d"
      by blast
    then show "earth_mars_distance eph (epoch_of (day_of y k)) = Inr (?D k)" by simp
  qed
  from scan_year_first_min [OF assms(1,2) h]
  obtain k where k: "k < 366" "scan_year eph y = Inr (Some (day_of y k, ?D k))" by blast
  from h k(1) have "earth_mars_distance eph (epoch_of (day_of y k)) = Inr (?D k)" by blast
  then have "0 \<le> ?D k" by (rule earth_mars_distance_nonneg)
  with k(2) day_of_in_or_after_year [OF k(1), of y] show ?thesis
    by (intro exI [of _ "day_of y k"] exI [of _ "?D k"]) simp
qed

lemma year_loop_records:
  assumes "\<forall>y\<in>set ys. MINYEAR \<le> y \<and> y < MAXYEAR \<and>
             (\<forall>k<366. \<exists>d. earth_mars_distance eph (epoch_of (day_of y k)) = Inr d)"
  shows "\<exists>new. year_loop eph ys recs out =
             (out @ map (\<lambda>(y, dt, d). Progress y dt d) new, Inr (recs @ new)) \<and>
           map fst new = ys \<and>
           (\<forall>(y, dt, d)\<in>set new. 0 \<le> d \<and>
              (year dt = y \<or> \<not> is_leap y \<and> dt = Date (y + 1) 1 1))"
  using assms
proof (induction ys arbitrary: recs out)
  case Nil
  show ?case by simp
next
  case (Cons y ys)
  from Cons.prems have y: "MINYEAR \<le> y" "y < MAXYEAR"
    "\<forall>k<366. \<exists>d. earth_mars_distance eph (epoch_of (day_of y k)) = Inr d" by simp_all
  from scan_year_resolved [OF y] obtain dt d where
    s: "scan_year eph y = Inr (Some (dt, d))" "0 \<le> d"
       "year dt = y \<or> \<not> is_leap y \<and> dt = Date (y + 1) 1 1" by blast
  from Cons.prems have rest: "\<forall>y\<in>set ys. MINYEAR \<le> y \<and> y < MAXYEAR \<and>
             (\<forall>k<366. \<exists>d. earth_mars_distance eph (epoch_of (day_of y k)) = Inr d)" by simp
  from Cons.IH [OF rest, of "recs @ [(y, dt, d)]" "out @ [Progress y dt d]"]
  obtain new where n: "year_loop eph ys (recs @ [(y, dt, d)]) (out @ [Progress y dt d]) =
      ((out @ [Progress y dt d]) @ map (\<lambda>(y, dt, d). Progress y dt d) new,
       Inr ((recs @ [(y, dt, d)]) @ new))"
    "map fst new = ys"
    "\<forall>(y, dt, d)\<in>set new. 0 \<le> d \<and> (year dt = y \<or> \<not> is_leap y \<and> dt = Date (y + 1) 1 1)"
    by (elim exE conjE)
  let ?new = "(y, dt, d) # new"
  have a: "year_loop eph (y # ys) recs out =
      (out @ map (\<lambda>(y, dt, d). Progress y dt d) ?new, Inr (recs @ ?new))"
    using s(1) n(1) by simp
  have b: "map fst ?new = y # ys" using n(2) by simp
  have c: "\<forall>(y, dt, d)\<in>set ?new. 0 \<le> d \<and>
      (year dt = y \<or> \<not> is_leap y \<and> dt = Date (y + 1) 1 1)"
    using s(2,3) n(3) by simp
  show ?case by (rule exI [of _ ?new]) (intro conjI a b c)
qed

end
